theory Spec2Isabelle
  imports Complex_Main
begin

section \<open>The upload component (frontend/src/components/PAProcessor.js)\<close>

text \<open>
  The component holds five pieces of React state, created by \<open>useState\<close> with the
  initial values \<open>null\<close>, \<open>null\<close>, \<open>'waiting'\<close>, \<open>null\<close> and \<open>''\<close>.
  A \<open>File\<close> object is identified by its name; \<open>null\<close> is \<open>None\<close>.
\<close>

type_synonym upload = string

record component_state =
  document1 :: "upload option"
  document2 :: "upload option"
  status :: string
  resultUrl :: "string option"
  errorMessage :: string

definition initial_state :: component_state where
  "initial_state =
     \<lparr>document1 = None, document2 = None, status = ''waiting'',
      resultUrl = None, errorMessage = ''''\<rparr>"

text \<open>
  What a handler does, in the order it does it: the state setters it calls and the
  network requests it issues.
\<close>

record request =
  url :: string
  http_method :: string
  body :: "(string \<times> upload) list"

datatype effect =
    SetDocument1 "upload option"
  | SetDocument2 "upload option"
  | SetStatus string
  | SetResultUrl "string option"
  | SetErrorMessage string
  | Fetch request

fun apply_effect :: "effect \<Rightarrow> component_state \<Rightarrow> component_state" where
  "apply_effect (SetDocument1 v) s = s\<lparr>document1 := v\<rparr>"
| "apply_effect (SetDocument2 v) s = s\<lparr>document2 := v\<rparr>"
| "apply_effect (SetStatus v) s = s\<lparr>status := v\<rparr>"
| "apply_effect (SetResultUrl v) s = s\<lparr>resultUrl := v\<rparr>"
| "apply_effect (SetErrorMessage v) s = s\<lparr>errorMessage := v\<rparr>"
| "apply_effect (Fetch r) s = s"

definition run :: "component_state \<Rightarrow> effect list \<Rightarrow> component_state" where
  "run s effs = fold apply_effect effs s"

fun requests :: "effect list \<Rightarrow> request list" where
  "requests [] = []"
| "requests (Fetch r # effs) = r # requests effs"
| "requests (e # effs) = requests effs"

fun status_writes :: "effect list \<Rightarrow> string list" where
  "status_writes [] = []"
| "status_writes (SetStatus v # effs) = v # status_writes effs"
| "status_writes (e # effs) = status_writes effs"

text \<open>
  The server's answer to the one request of \<open>handleProcess\<close>, as the handler
  observes it: \<open>fetch\<close> rejects; or the response is \<open>ok\<close> and \<open>response.blob()\<close>
  rejects or gives a blob, for which \<open>URL.createObjectURL\<close> returns a URL; or the
  response is not \<open>ok\<close> and \<open>response.json()\<close> throws, or gives a body whose
  \<open>detail\<close> is absent or a string.
\<close>

datatype json_outcome = JsonThrows | JsonBody "string option"

datatype fetch_outcome =
    FetchRejects
  | ResponseOk "string option"
  | ResponseNotOk json_outcome

text \<open>\<open>errorData.detail || errorMessage\<close>: an absent or empty detail is falsy.\<close>

fun error_detail :: "json_outcome \<Rightarrow> string" where
  "error_detail JsonThrows = ''Processing failed. Please try again.''"
| "error_detail (JsonBody None) = ''Processing failed. Please try again.''"
| "error_detail (JsonBody (Some d)) =
     (if d = [] then ''Processing failed. Please try again.'' else d)"

definition network_error :: "effect list" where
  "network_error =
     [SetErrorMessage ''Network error. Please check your connection and try again.'',
      SetStatus ''error'']"

fun after_fetch :: "fetch_outcome \<Rightarrow> effect list" where
  "after_fetch FetchRejects = network_error"
| "after_fetch (ResponseOk None) = network_error"
| "after_fetch (ResponseOk (Some u)) = [SetResultUrl (Some u), SetStatus ''done'']"
| "after_fetch (ResponseNotOk j) = [SetErrorMessage (error_detail j), SetStatus ''error'']"

text \<open>
  \<open>handleProcess\<close> reads \<open>document1\<close> and \<open>document2\<close> of the render it was
  created in. \<open>!document1 || !document2\<close> holds exactly when one of them is
  \<open>null\<close>: a \<open>File\<close> object is truthy.
\<close>

definition handleProcess :: "fetch_outcome \<Rightarrow> component_state \<Rightarrow> effect list" where
  "handleProcess net s =
     (case (document1 s, document2 s) of
        (Some d1, Some d2) \<Rightarrow>
          [SetStatus ''processing'', SetErrorMessage '''',
           Fetch \<lparr>url = ''/api/v1/process'', http_method = ''POST'',
                  body = [(''referral_document'', d1), (''pa_form'', d2)]\<rparr>]
          @ after_fetch net
      | _ \<Rightarrow> [SetErrorMessage ''Please upload both documents before processing.''])"

definition resetForm :: "component_state \<Rightarrow> component_state" where
  "resetForm s =
     run s [SetDocument1 None, SetDocument2 None, SetStatus ''waiting'',
            SetResultUrl None, SetErrorMessage '''']"

section \<open>The status display (StatusIndicator)\<close>

















section \<open>The Conflict Resolver / Branch Selector\<close>

text \<open>
  Modelled from the spec: the Conflict Resolver (specification section 4.5) and the
  entities it reads and writes (section 3). The repository's sources hold the upload
  page that posts the two documents to \<open>/api/v1/process\<close>; the pipeline behind that
  endpoint is not among them. The definitions below follow the words of the
  specification, step by step.
\<close>

datatype field_kind = TextField | CheckboxField | RadioField | DateField

record rectangle =
  rect_left :: real
  rect_top :: real
  rect_right :: real
  rect_bottom :: real

record FormField =
  field_id :: nat
  label :: string
  kind :: field_kind
  bbox :: rectangle
  page :: nat
  groupId :: "nat option"

record FieldGroup =
  members :: "nat list"
  exclusive :: bool

record FieldDependency =
  trigger :: nat
  trigger_value :: string
  dependents :: "nat list"

record EvidenceCandidate =
  fieldId :: nat
  candidate_value :: string
  confidence :: real
  sourceBlocks :: "nat list"

record ResolvedField =
  resolved_fieldId :: nat
  resolved_value :: string
  resolved_confidence :: real

datatype reason =
    NoEvidence
  | BelowConfidenceThreshold
  | ExcludedByDependency
  | ExcludedByExclusivity

record MissingField =
  missing_fieldId :: nat
  missing_label :: string
  missing_reason :: reason

record resolution =
  resolved :: "ResolvedField list"
  report :: "MissingField list"

text \<open>
  Modelled from the spec: step 1. For each field, the candidates at or above
  \<open>minConfidence\<close> are kept (the boundary is inclusive), and at most one candidate
  per field is promoted: the one of highest confidence, the earliest in the ranking
  among equals.
\<close>

definition surviving :: "real \<Rightarrow> EvidenceCandidate list \<Rightarrow> nat \<Rightarrow> EvidenceCandidate list" where
  "surviving minConfidence cs f =
     filter (\<lambda>c. fieldId c = f \<and> minConfidence \<le> confidence c) cs"

fun best_of :: "EvidenceCandidate \<Rightarrow> EvidenceCandidate list \<Rightarrow> EvidenceCandidate" where
  "best_of b [] = b"
| "best_of b (c # cs) = best_of (if confidence b < confidence c then c else b) cs"

definition promote :: "real \<Rightarrow> EvidenceCandidate list \<Rightarrow> nat \<Rightarrow> ResolvedField option" where
  "promote minConfidence cs f =
     (case surviving minConfidence cs f of
        [] \<Rightarrow> None
      | c # rest \<Rightarrow>
          Some \<lparr>resolved_fieldId = f,
                resolved_value = candidate_value (best_of c rest),
                resolved_confidence = confidence (best_of c rest)\<rparr>)"

type_synonym active_field = "FormField \<times> ResolvedField"

definition above_threshold ::
    "real \<Rightarrow> EvidenceCandidate list \<Rightarrow> FormField list \<Rightarrow> active_field list" where
  "above_threshold minConfidence cs fs =
     concat (map (\<lambda>f. case promote minConfidence cs (field_id f) of
                          None \<Rightarrow> []
                        | Some r \<Rightarrow> [(f, r)]) fs)"

text \<open>
  Modelled from the spec: step 2 and the tie-break rule. In each exclusive group the
  surviving member of highest confidence stays active; among equals the field that
  comes first in document order (page, then top-to-bottom position) wins. Every other
  member of the group is taken out.
\<close>

definition doc_before :: "FormField \<Rightarrow> FormField \<Rightarrow> bool" where
  "doc_before a b \<longleftrightarrow>
     page a < page b \<or> (page a = page b \<and> rect_top (bbox a) < rect_top (bbox b))"

definition beats :: "active_field \<Rightarrow> active_field \<Rightarrow> bool" where
  "beats a w \<longleftrightarrow>
     resolved_confidence (snd w) < resolved_confidence (snd a)
     \<or> (resolved_confidence (snd a) = resolved_confidence (snd w) \<and> doc_before (fst a) (fst w))"

fun winner_of :: "active_field \<Rightarrow> active_field list \<Rightarrow> active_field" where
  "winner_of w [] = w"
| "winner_of w (a # as) = winner_of (if beats a w then a else w) as"

definition in_group :: "FieldGroup \<Rightarrow> active_field \<Rightarrow> bool" where
  "in_group g e \<longleftrightarrow> field_id (fst e) \<in> set (members g)"

definition apply_group :: "FieldGroup \<Rightarrow> active_field list \<Rightarrow> active_field list" where
  "apply_group g act =
     (if exclusive g then
        (case filter (in_group g) act of
           [] \<Rightarrow> act
         | c # rest \<Rightarrow>
             filter (\<lambda>e. \<not> in_group g e
                          \<or> field_id (fst e) = field_id (fst (winner_of c rest))) act)
      else act)"

definition select_exclusive :: "FieldGroup list \<Rightarrow> active_field list \<Rightarrow> active_field list" where
  "select_exclusive gs act = fold apply_group gs act"

text \<open>
  Modelled from the spec: step 3. A dependent is eligible only if the trigger of each
  dependency that names it is active with the required value. Taking a dependent out
  can leave another dependency untriggered, so the step is repeated until every
  active field is eligible: the output is dependency-consistent.
\<close>

definition triggered :: "active_field list \<Rightarrow> FieldDependency \<Rightarrow> bool" where
  "triggered act d \<longleftrightarrow>
     list_ex (\<lambda>e. field_id (fst e) = trigger d \<and> resolved_value (snd e) = trigger_value d) act"

definition eligible :: "FieldDependency list \<Rightarrow> active_field list \<Rightarrow> active_field \<Rightarrow> bool" where
  "eligible ds act e \<longleftrightarrow>
     list_all (\<lambda>d. field_id (fst e) \<in> set (dependents d) \<longrightarrow> triggered act d) ds"

function enforce_dependencies ::
    "FieldDependency list \<Rightarrow> active_field list \<Rightarrow> active_field list" where
  "enforce_dependencies ds act =
     (if length (filter (eligible ds act) act) < length act
      then enforce_dependencies ds (filter (eligible ds act) act)
      else act)"
  by pat_completeness auto
termination
  by (relation "measure (\<lambda>(ds, act). length act)") auto

declare enforce_dependencies.simps [simp del]

text \<open>
  Modelled from the spec: step 4 and the output. A field that is not active is
  reported once, with the reason of the first step that left it blank: no candidate
  at all, no candidate at or above the threshold, displaced in its exclusive group,
  or an untriggered dependency. The report follows the order of the form's fields.
\<close>

definition active_in :: "active_field list \<Rightarrow> FormField \<Rightarrow> bool" where
  "active_in act f \<longleftrightarrow> list_ex (\<lambda>e. field_id (fst e) = field_id f) act"

definition blank_reason ::
    "EvidenceCandidate list \<Rightarrow> active_field list \<Rightarrow> active_field list \<Rightarrow> FormField \<Rightarrow> reason" where
  "blank_reason cs kept chosen f =
     (if \<not> active_in kept f then
        (if list_ex (\<lambda>c. fieldId c = field_id f) cs
         then BelowConfidenceThreshold else NoEvidence)
      else if \<not> active_in chosen f then ExcludedByExclusivity
      else ExcludedByDependency)"

definition resolve ::
    "real \<Rightarrow> FormField list \<Rightarrow> FieldGroup list \<Rightarrow> FieldDependency list
      \<Rightarrow> EvidenceCandidate list \<Rightarrow> resolution" where
  "resolve minConfidence fs gs ds cs =
     (let kept = above_threshold minConfidence cs fs;
          chosen = select_exclusive gs kept;
          final = enforce_dependencies ds chosen
      in \<lparr>resolved = map snd final,
          report =
            concat (map (\<lambda>f. if active_in final f then []
                              else [\<lparr>missing_fieldId = field_id f,
                                     missing_label = label f,
                                     missing_reason = blank_reason cs kept chosen f\<rparr>]) fs)\<rparr>)"

text \<open>A field is active in a resolution when the resolved set holds a value for it.\<close>

definition is_active :: "resolution \<Rightarrow> nat \<Rightarrow> bool" where
  "is_active res f \<longleftrightarrow> list_ex (\<lambda>r. resolved_fieldId r = f) (resolved res)"

definition reported :: "resolution \<Rightarrow> FormField \<Rightarrow> reason \<Rightarrow> bool" where
  "reported res f why \<longleftrightarrow>
     \<lparr>missing_fieldId = field_id f, missing_label = label f, missing_reason = why\<rparr>
       \<in> set (report res)"

text \<open>
  The trigger of a dependency is active in a resolution when the resolved set holds
  the required value for the trigger field.
\<close>

definition trigger_active :: "resolution \<Rightarrow> FieldDependency \<Rightarrow> bool" where
  "trigger_active res d \<longleftrightarrow>
     list_ex (\<lambda>t. resolved_fieldId t = trigger d \<and> resolved_value t = trigger_value d)
       (resolved res)"

text \<open>
  A candidate list is unambiguous when two candidates for one field with the same
  confidence propose the same value: the ranking then decides the promoted value
  whatever the order of equals.
\<close>

definition unambiguous :: "EvidenceCandidate list \<Rightarrow> bool" where
  "unambiguous cs \<longleftrightarrow>
     list_all (\<lambda>c. list_all (\<lambda>c'. fieldId c = fieldId c' \<and> confidence c = confidence c'
                                  \<longrightarrow> candidate_value c = candidate_value c') cs) cs"

section \<open>An example form\<close>

text \<open>
  The form of the specification's scenarios: the check boxes New Patient and Existing
  Patient, one exclusive group, and a date that depends on New Patient being ticked.
\<close>

definition form_field :: "nat \<Rightarrow> string \<Rightarrow> field_kind \<Rightarrow> nat \<Rightarrow> real \<Rightarrow> FormField" where
  "form_field i l k p t =
     \<lparr>field_id = i, label = l, kind = k,
      bbox = \<lparr>rect_left = 72, rect_top = t, rect_right = 84, rect_bottom = t + 12\<rparr>,
      page = p, groupId = None\<rparr>"

definition evidence :: "nat \<Rightarrow> string \<Rightarrow> real \<Rightarrow> EvidenceCandidate" where
  "evidence i v c = \<lparr>fieldId = i, candidate_value = v, confidence = c, sourceBlocks = [0]\<rparr>"

definition NewPatient :: FormField where
  "NewPatient = form_field 1 ''New Patient'' CheckboxField 0 100"

definition ExistingPatient :: FormField where
  "ExistingPatient = form_field 2 ''Existing Patient'' CheckboxField 0 120"

definition NewPatientDate :: FormField where
  "NewPatientDate = form_field 3 ''Date of first visit'' DateField 0 140"

definition patient_status :: FieldGroup where
  "patient_status = \<lparr>members = [1, 2], exclusive = True\<rparr>"

definition new_patient_details :: FieldDependency where
  "new_patient_details = \<lparr>trigger = 1, trigger_value = ''true'', dependents = [3]\<rparr>"

text \<open>
  Two more constraints for the same fields: an exclusive group that shares Existing
  Patient with the first one, and a dependency that makes New Patient depend on the
  date.
\<close>

definition existing_or_date :: FieldGroup where
  "existing_or_date = \<lparr>members = [2, 3], exclusive = True\<rparr>"

definition date_gate :: FieldDependency where
  "date_gate = \<lparr>trigger = 3, trigger_value = ''given'', dependents = [1]\<rparr>"

section \<open>Properties of the upload component\<close>

lemma run_guard:
  "run s [SetErrorMessage m] = s\<lparr>errorMessage := m\<rparr>"
  by (simp add: run_def)

text \<open>
  Claim C8. \<open>handleProcess\<close> with \<open>document1\<close> or \<open>document2\<close> null calls one
  setter only, the one of the error message, with the text asking for both documents:
  it issues no request and writes no status, so the status is what it was. With both
  documents present, it issues exactly one request, a POST to \<open>/api/v1/process\<close>
  whose form data holds \<open>document1\<close> under \<open>referral_document\<close> and
  \<open>document2\<close> under \<open>pa_form\<close>, whatever the server answers.
\<close>

theorem handleProcess_needs_both_documents:
  "(document1 s = None \<or> document2 s = None \<longrightarrow>
      handleProcess net s = [SetErrorMessage ''Please upload both documents before processing.'']
      \<and> requests (handleProcess net s) = []
      \<and> status_writes (handleProcess net s) = []
      \<and> run s (handleProcess net s)
          = s\<lparr>errorMessage := ''Please upload both documents before processing.''\<rparr>
      \<and> status (run s (handleProcess net s)) = status s)
   \<and> (document1 s = Some d1 \<and> document2 s = Some d2 \<longrightarrow>
      requests (handleProcess net s)
        = [\<lparr>url = ''/api/v1/process'', http_method = ''POST'',
            body = [(''referral_document'', d1), (''pa_form'', d2)]\<rparr>])"
proof (intro conjI impI)
  assume missing: "document1 s = None \<or> document2 s = None"
  show guard: "handleProcess net s
      = [SetErrorMessage ''Please upload both documents before processing.'']"
    using missing by (auto simp: handleProcess_def split: option.splits)
  show "requests (handleProcess net s) = []"
    by (simp add: guard)
  show "status_writes (handleProcess net s) = []"
    by (simp add: guard)
  show "run s (handleProcess net s)
      = s\<lparr>errorMessage := ''Please upload both documents before processing.''\<rparr>"
    by (simp add: guard run_guard)
  show "status (run s (handleProcess net s)) = status s"
    by (simp add: guard run_guard)
next
  assume both: "document1 s = Some d1 \<and> document2 s = Some d2"
  have "requests (after_fetch net) = []"
    by (cases net rule: after_fetch.cases) (simp_all add: network_error_def)
  then show "requests (handleProcess net s)
      = [\<lparr>url = ''/api/v1/process'', http_method = ''POST'',
          body = [(''referral_document'', d1), (''pa_form'', d2)]\<rparr>]"
    using both by (simp add: handleProcess_def)
qed

theorem handleProcess_needs_both_documents_witness:
  "handleProcess FetchRejects (initial_state\<lparr>document1 := Some ''referral.pdf''\<rparr>)
      = [SetErrorMessage ''Please upload both documents before processing.'']
   \<and> status (run (initial_state\<lparr>document1 := Some ''referral.pdf''\<rparr>)
        (handleProcess FetchRejects (initial_state\<lparr>document1 := Some ''referral.pdf''\<rparr>)))
      = ''waiting''
   \<and> requests (handleProcess (ResponseOk (Some ''blob:1''))
        (initial_state\<lparr>document1 := Some ''referral.pdf'', document2 := Some ''pa.pdf''\<rparr>))
      = [\<lparr>url = ''/api/v1/process'', http_method = ''POST'',
          body = [(''referral_document'', ''referral.pdf''), (''pa_form'', ''pa.pdf'')]\<rparr>]"
  using handleProcess_needs_both_documents
      [of "initial_state\<lparr>document1 := Some ''referral.pdf''\<rparr>" FetchRejects]
    handleProcess_needs_both_documents
      [of "initial_state\<lparr>document1 := Some ''referral.pdf'', document2 := Some ''pa.pdf''\<rparr>"
          "ResponseOk (Some ''blob:1'')" "''referral.pdf''" "''pa.pdf''"]
  by (simp add: initial_state_def run_def)

text \<open>
  Claim C10. \<open>resetForm\<close> sets all five pieces of state to their initial values,
  whatever the state was; resetting twice is resetting once.
\<close>

theorem resetForm_restores_initial_state:
  "resetForm s = initial_state \<and> resetForm (resetForm s) = resetForm s"
  by (simp add: resetForm_def run_def initial_state_def)

section \<open>Properties of the status display\<close>










section \<open>Properties of the Conflict Resolver\<close>


lemma promote_fieldId: "promote m cs f = Some r \<Longrightarrow> resolved_fieldId r = f"
  by (auto simp: promote_def split: list.splits)

lemma above_threshold_iff:
  "e \<in> set (above_threshold m cs fs) \<longleftrightarrow>
     fst e \<in> set fs \<and> promote m cs (field_id (fst e)) = Some (snd e)"
  by (cases e) (auto simp: above_threshold_def split: option.splits)

lemma apply_group_subset: "set (apply_group g act) \<subseteq> set act"
  by (auto simp: apply_group_def split: list.splits)

lemma select_exclusive_subset: "set (select_exclusive gs act) \<subseteq> set act"
  unfolding select_exclusive_def
proof (induction gs arbitrary: act)
  case Nil
  show ?case by simp
next
  case (Cons g gs)
  have "set (fold apply_group gs (apply_group g act)) \<subseteq> set (apply_group g act)"
    by (rule Cons.IH)
  with apply_group_subset [of g act] show ?case by auto
qed

lemma enforce_dependencies_subset: "set (enforce_dependencies ds act) \<subseteq> set act"
proof (induction ds act rule: enforce_dependencies.induct)
  case (1 ds act)
  show ?case
  proof (cases "length (filter (eligible ds act) act) < length act")
    case True
    with "1.IH" have "set (enforce_dependencies ds (filter (eligible ds act) act))
        \<subseteq> set (filter (eligible ds act) act)" by simp
    moreover have "enforce_dependencies ds act
        = enforce_dependencies ds (filter (eligible ds act) act)"
      using True by (subst enforce_dependencies.simps) simp
    ultimately show ?thesis by auto
  next
    case False
    then have "enforce_dependencies ds act = act"
      by (subst enforce_dependencies.simps) simp
    then show ?thesis by simp
  qed
qed


lemma enforce_dependencies_keeps:
  "e \<in> set act \<Longrightarrow> (\<forall>d \<in> set ds. field_id (fst e) \<notin> set (dependents d)) \<Longrightarrow>
   e \<in> set (enforce_dependencies ds act)"
proof (induction ds act rule: enforce_dependencies.induct)
  case (1 ds act)
  have el: "eligible ds xs e" for xs
    using "1.prems"(2) by (simp add: eligible_def list_all_iff)
  show ?case
  proof (cases "length (filter (eligible ds act) act) < length act")
    case True
    have eq: "enforce_dependencies ds act
        = enforce_dependencies ds (filter (eligible ds act) act)"
      using True by (subst enforce_dependencies.simps) simp
    have "e \<in> set (filter (eligible ds act) act)"
      using "1.prems"(1) el by simp
    from "1.IH" [OF True this "1.prems"(2)] show ?thesis
      unfolding eq .
  next
    case False
    then have eq: "enforce_dependencies ds act = act"
      by (subst enforce_dependencies.simps) simp
    with "1.prems"(1) show ?thesis by simp
  qed
qed

lemma apply_group_at_most_one:
  assumes "exclusive g" "a \<in> set (apply_group g act)" "b \<in> set (apply_group g act)"
    "in_group g a" "in_group g b"
  shows "field_id (fst a) = field_id (fst b)"
proof (cases "filter (in_group g) act")
  case Nil
  moreover from assms(2) apply_group_subset have "a \<in> set act" by blast
  ultimately show ?thesis using assms(4)
    by (metis empty_iff empty_set mem_Collect_eq set_filter)
next
  case (Cons c rest)
  with assms show ?thesis by (auto simp: apply_group_def)
qed

lemma fold_apply_group_at_most_one:
  "g \<in> set gs \<Longrightarrow> exclusive g \<Longrightarrow>
   a \<in> set (fold apply_group gs act) \<Longrightarrow> b \<in> set (fold apply_group gs act) \<Longrightarrow>
   in_group g a \<Longrightarrow> in_group g b \<Longrightarrow> field_id (fst a) = field_id (fst b)"
proof (induction gs arbitrary: act)
  case Nil
  then show ?case by simp
next
  case (Cons g' gs)
  show ?case
  proof (cases "g = g'")
    case True
    have sub: "set (fold apply_group gs (apply_group g act)) \<subseteq> set (apply_group g act)"
      using select_exclusive_subset [of gs "apply_group g act"]
      by (simp add: select_exclusive_def)
    from Cons.prems True sub have "a \<in> set (apply_group g act)" "b \<in> set (apply_group g act)"
      by auto
    with Cons.prems show ?thesis by (intro apply_group_at_most_one [of g a act b])
  next
    case False
    with Cons.prems have "g \<in> set gs" by simp
    from Cons.IH [OF this Cons.prems(2), of "apply_group g' act"] Cons.prems
    show ?thesis by simp
  qed
qed

lemma final_entries:
  assumes "e \<in> set (enforce_dependencies ds (select_exclusive gs (above_threshold m cs fs)))"
  shows "resolved_fieldId (snd e) = field_id (fst e)"
    and "e \<in> set (select_exclusive gs (above_threshold m cs fs))"
    and "e \<in> set (above_threshold m cs fs)" and "fst e \<in> set fs"
proof -
  from assms enforce_dependencies_subset
  show c: "e \<in> set (select_exclusive gs (above_threshold m cs fs))" by blast
  with select_exclusive_subset show k: "e \<in> set (above_threshold m cs fs)" by blast
  then show "resolved_fieldId (snd e) = field_id (fst e)" "fst e \<in> set fs"
    by (auto simp: above_threshold_iff dest: promote_fieldId)
qed

text \<open>
  Claim C1. In every resolution, whatever the candidates, two resolved fields that
  belong to one exclusive group of the form are the same field: an exclusive group has
  at most one active member.
\<close>

theorem exclusive_group_at_most_one_active:
  assumes "g \<in> set gs" and "exclusive g"
    and "r1 \<in> set (resolved (resolve m fs gs ds cs))"
    and "r2 \<in> set (resolved (resolve m fs gs ds cs))"
    and "resolved_fieldId r1 \<in> set (members g)"
    and "resolved_fieldId r2 \<in> set (members g)"
  shows "resolved_fieldId r1 = resolved_fieldId r2"
proof -
  let ?final = "enforce_dependencies ds (select_exclusive gs (above_threshold m cs fs))"
  from assms(3) obtain a where a: "a \<in> set ?final" "snd a = r1"
    by (auto simp: resolve_def Let_def)
  from assms(4) obtain b where b: "b \<in> set ?final" "snd b = r2"
    by (auto simp: resolve_def Let_def)
  have ia: "resolved_fieldId r1 = field_id (fst a)" using final_entries(1) [OF a(1)] a(2) by simp
  have ib: "resolved_fieldId r2 = field_id (fst b)" using final_entries(1) [OF b(1)] b(2) by simp
  have "field_id (fst a) = field_id (fst b)"
  proof (rule fold_apply_group_at_most_one [OF assms(1,2)])
    show "a \<in> set (fold apply_group gs (above_threshold m cs fs))"
      using final_entries(2) [OF a(1)] by (simp add: select_exclusive_def)
    show "b \<in> set (fold apply_group gs (above_threshold m cs fs))"
      using final_entries(2) [OF b(1)] by (simp add: select_exclusive_def)
    show "in_group g a" using assms(5) ia by (simp add: in_group_def)
    show "in_group g b" using assms(6) ib by (simp add: in_group_def)
  qed
  with ia ib show ?thesis by simp
qed














lemma active_in_iff: "active_in act f \<longleftrightarrow> (\<exists>e\<in>set act. field_id (fst e) = field_id f)"
  by (simp add: active_in_def list_ex_iff)

lemma promote_Some_iff:
  "(\<exists>r. promote m cs i = Some r) \<longleftrightarrow> (\<exists>c\<in>set cs. fieldId c = i \<and> m \<le> confidence c)"
proof -
  have "surviving m cs i \<noteq> [] \<longleftrightarrow> (\<exists>c\<in>set cs. fieldId c = i \<and> m \<le> confidence c)"
    by (auto simp: surviving_def filter_empty_conv)
  then show ?thesis by (auto simp: promote_def split: list.splits)
qed

lemma active_in_above_threshold:
  "f \<in> set fs \<Longrightarrow>
   active_in (above_threshold m cs fs) f \<longleftrightarrow> (\<exists>c\<in>set cs. fieldId c = field_id f \<and> m \<le> confidence c)"
proof -
  assume f: "f \<in> set fs"
  have "active_in (above_threshold m cs fs) f \<longleftrightarrow> (\<exists>r. promote m cs (field_id f) = Some r)"
  proof
    assume "active_in (above_threshold m cs fs) f"
    then obtain e where "e \<in> set (above_threshold m cs fs)" "field_id (fst e) = field_id f"
      by (auto simp: active_in_iff)
    then show "\<exists>r. promote m cs (field_id f) = Some r"
      by (auto simp: above_threshold_iff)
  next
    assume "\<exists>r. promote m cs (field_id f) = Some r"
    then obtain r where "promote m cs (field_id f) = Some r" ..
    with f have "(f, r) \<in> set (above_threshold m cs fs)"
      by (simp add: above_threshold_iff)
    then show "active_in (above_threshold m cs fs) f"
      by (force simp: active_in_iff)
  qed
  then show ?thesis by (simp add: promote_Some_iff)
qed

lemma is_active_iff:
  "is_active (resolve m fs gs ds cs) i \<longleftrightarrow>
   (\<exists>e\<in>set (enforce_dependencies ds (select_exclusive gs (above_threshold m cs fs))).
      field_id (fst e) = i)"
proof -
  let ?F = "enforce_dependencies ds (select_exclusive gs (above_threshold m cs fs))"
  have "is_active (resolve m fs gs ds cs) i \<longleftrightarrow> (\<exists>e\<in>set ?F. resolved_fieldId (snd e) = i)"
    by (auto simp: is_active_def resolve_def Let_def list_ex_iff)
  also have "\<dots> \<longleftrightarrow> (\<exists>e\<in>set ?F. field_id (fst e) = i)"
    using final_entries(1) [of _ ds gs m cs fs] by auto
  finally show ?thesis .
qed

lemma reportedI:
  assumes "f \<in> set fs" "\<not> is_active (resolve m fs gs ds cs) (field_id f)"
    and "blank_reason cs (above_threshold m cs fs) (select_exclusive gs (above_threshold m cs fs)) f = why"
  shows "reported (resolve m fs gs ds cs) f why"
proof -
  from assms(2) have
    "\<not> active_in (enforce_dependencies ds (select_exclusive gs (above_threshold m cs fs))) f"
    by (simp add: is_active_iff active_in_iff)
  with assms(1,3) show ?thesis
    by (force simp: reported_def resolve_def Let_def)
qed

lemma blank_reason_cong:
  "field_id f' = field_id f \<Longrightarrow> blank_reason cs kept chosen f' = blank_reason cs kept chosen f"
  by (simp add: blank_reason_def active_in_def)

lemma reportedD:
  assumes "reported (resolve m fs gs ds cs) f why"
  shows "\<not> is_active (resolve m fs gs ds cs) (field_id f)
     \<and> blank_reason cs (above_threshold m cs fs) (select_exclusive gs (above_threshold m cs fs)) f = why"
proof -
  let ?K = "above_threshold m cs fs"
  let ?F = "enforce_dependencies ds (select_exclusive gs ?K)"
  from assms obtain f' where f': "f' \<in> set fs" "\<not> active_in ?F f'" "field_id f' = field_id f"
    "blank_reason cs ?K (select_exclusive gs ?K) f' = why"
    by (auto simp: reported_def resolve_def Let_def split: if_splits)
  from f'(2,3) have "\<not> is_active (resolve m fs gs ds cs) (field_id f)"
    by (simp add: is_active_iff active_in_iff)
  moreover from f'(3,4) have "blank_reason cs ?K (select_exclusive gs ?K) f = why"
    using blank_reason_cong [of f' f] by simp
  ultimately show ?thesis by simp
qed











lemmas resolver_eval =
  resolve_def Let_def above_threshold_def promote_def surviving_def select_exclusive_def
  apply_group_def in_group_def beats_def doc_before_def enforce_dependencies.simps
  eligible_def triggered_def active_in_def blank_reason_def is_active_def reported_def
  form_field_def evidence_def NewPatient_def ExistingPatient_def NewPatientDate_def
  patient_status_def new_patient_details_def existing_or_date_def date_gate_def
  trigger_active_def

theorem exclusive_group_at_most_one_active_witness:
  "patient_status \<in> set [patient_status] \<and> exclusive patient_status
   \<and> resolved (resolve 0.5 [NewPatient, ExistingPatient] [patient_status] []
          [evidence 1 ''true'' 0.8, evidence 2 ''true'' 0.6])
      = [\<lparr>resolved_fieldId = 1, resolved_value = ''true'', resolved_confidence = 0.8\<rparr>]
   \<and> 1 \<in> set (members patient_status)"
  using exclusive_group_at_most_one_active
    [of patient_status "[patient_status]"
        "\<lparr>resolved_fieldId = 1, resolved_value = ''true'', resolved_confidence = 0.8\<rparr>"
        "0.5" "[NewPatient, ExistingPatient]" "[]"
        "[evidence 1 ''true'' 0.8, evidence 2 ''true'' 0.6]"
        "\<lparr>resolved_fieldId = 1, resolved_value = ''true'', resolved_confidence = 0.8\<rparr>"]
  by (simp add: resolver_eval)



lemma select_exclusive_keeps:
  "e \<in> set act \<Longrightarrow> \<forall>g\<in>set gs. exclusive g \<longrightarrow> field_id (fst e) \<notin> set (members g) \<Longrightarrow>
   e \<in> set (select_exclusive gs act)"
  unfolding select_exclusive_def
proof (induction gs arbitrary: act)
  case Nil
  then show ?case by simp
next
  case (Cons g gs)
  from Cons.prems have "e \<in> set (apply_group g act)"
    by (auto simp: apply_group_def in_group_def split: list.splits)
  with Cons.prems(2) Cons.IH [of "apply_group g act"] show ?case by simp
qed

lemma best_of_mem: "best_of b xs \<in> set (b # xs)"
  by (induction xs arbitrary: b) (auto split: if_splits)

lemma best_of_highest: "x \<in> set (b # xs) \<Longrightarrow> confidence x \<le> confidence (best_of b xs)"
proof (induction xs arbitrary: b x)
  case Nil
  then show ?case by simp
next
  case (Cons y ys)
  have mono: "confidence b' \<le> confidence (best_of b' ys)" for b'
    using Cons.IH [of b' b'] by simp
  from Cons.prems consider "x = b" | "x = y" | "x \<in> set ys" by auto
  then show ?case
  proof cases
    case 1
    show ?thesis
      using mono [of "if confidence b < confidence y then y else b"] 1
      by (auto split: if_splits)
  next
    case 2
    show ?thesis
      using mono [of "if confidence b < confidence y then y else b"] 2
      by (auto split: if_splits)
  next
    case 3
    then show ?thesis
      using Cons.IH [of x "if confidence b < confidence y then y else b"] by simp
  qed
qed

lemma promote_confidence:
  assumes "promote m cs i = Some r"
  shows "\<exists>c\<in>set cs. fieldId c = i \<and> m \<le> confidence c \<and> confidence c = resolved_confidence r
      \<and> candidate_value c = resolved_value r"
    and "\<forall>c\<in>set cs. fieldId c = i \<longrightarrow> confidence c \<le> resolved_confidence r"
proof -
  from assms obtain c rest where s: "surviving m cs i = c # rest"
    and r: "r = \<lparr>resolved_fieldId = i, resolved_value = candidate_value (best_of c rest),
                 resolved_confidence = confidence (best_of c rest)\<rparr>"
    by (auto simp: promote_def split: list.splits)
  have "best_of c rest \<in> set (surviving m cs i)" using best_of_mem [of c rest] s by simp
  then have b: "best_of c rest \<in> set cs" "fieldId (best_of c rest) = i"
    "m \<le> confidence (best_of c rest)"
    by (simp_all add: surviving_def)
  then show "\<exists>c\<in>set cs. fieldId c = i \<and> m \<le> confidence c \<and> confidence c = resolved_confidence r
      \<and> candidate_value c = resolved_value r"
    using r by auto
  show "\<forall>c\<in>set cs. fieldId c = i \<longrightarrow> confidence c \<le> resolved_confidence r"
  proof (intro ballI impI)
    fix x assume x: "x \<in> set cs" "fieldId x = i"
    show "confidence x \<le> resolved_confidence r"
    proof (cases "m \<le> confidence x")
      case True
      with x have "x \<in> set (surviving m cs i)" by (simp add: surviving_def)
      then have "x \<in> set (c # rest)" by (simp only: s)
      then show ?thesis using best_of_highest [of x c rest] r by simp
    next
      case False
      with b(3) r show ?thesis by simp
    qed
  qed
qed



text \<open>
  Claim C3. The threshold comparison is inclusive. A field of the form whose best
  candidate has confidence exactly \<open>minConfidence\<close> is promoted with that
  confidence, survives step 1, is never reported as below the threshold, and is active
  in the resolution when no exclusive group and no dependency names it. A field that
  has candidates, all of them strictly below \<open>minConfidence\<close>, is blank and is
  reported with the reason below-confidence-threshold.
\<close>

theorem threshold_is_inclusive:
  assumes "f \<in> set fs"
  shows "((\<exists>c\<in>set cs. fieldId c = field_id f \<and> confidence c = m)
          \<and> (\<forall>c\<in>set cs. fieldId c = field_id f \<longrightarrow> confidence c \<le> m) \<longrightarrow>
            (\<exists>r. promote m cs (field_id f) = Some r \<and> resolved_confidence r = m)
            \<and> active_in (above_threshold m cs fs) f
            \<and> \<not> reported (resolve m fs gs ds cs) f BelowConfidenceThreshold
            \<and> ((\<forall>g\<in>set gs. exclusive g \<longrightarrow> field_id f \<notin> set (members g))
                 \<and> (\<forall>d\<in>set ds. field_id f \<notin> set (dependents d)) \<longrightarrow>
                 is_active (resolve m fs gs ds cs) (field_id f)))
       \<and> ((\<exists>c\<in>set cs. fieldId c = field_id f)
          \<and> (\<forall>c\<in>set cs. fieldId c = field_id f \<longrightarrow> confidence c < m) \<longrightarrow>
            \<not> is_active (resolve m fs gs ds cs) (field_id f)
            \<and> reported (resolve m fs gs ds cs) f BelowConfidenceThreshold)"
proof (intro conjI impI)
  let ?K = "above_threshold m cs fs"
  let ?C = "select_exclusive gs ?K"
  assume at: "(\<exists>c\<in>set cs. fieldId c = field_id f \<and> confidence c = m)
          \<and> (\<forall>c\<in>set cs. fieldId c = field_id f \<longrightarrow> confidence c \<le> m)"
  then have ex: "\<exists>c\<in>set cs. fieldId c = field_id f \<and> m \<le> confidence c" by auto
  then obtain r where r: "promote m cs (field_id f) = Some r"
    using promote_Some_iff [of m cs "field_id f"] by auto
  from promote_confidence(1) [OF r] at have "resolved_confidence r = m" by force
  with r show "\<exists>r. promote m cs (field_id f) = Some r \<and> resolved_confidence r = m" by simp
  from ex show kept: "active_in ?K f"
    using assms by (simp add: active_in_above_threshold)
  show "\<not> reported (resolve m fs gs ds cs) f BelowConfidenceThreshold"
  proof
    assume "reported (resolve m fs gs ds cs) f BelowConfidenceThreshold"
    then have "blank_reason cs ?K ?C f = BelowConfidenceThreshold"
      by (simp add: reportedD)
    with kept show False by (simp add: blank_reason_def split: if_splits)
  qed
  assume free: "(\<forall>g\<in>set gs. exclusive g \<longrightarrow> field_id f \<notin> set (members g))
                 \<and> (\<forall>d\<in>set ds. field_id f \<notin> set (dependents d))"
  from r assms have "(f, r) \<in> set ?K" by (simp add: above_threshold_iff)
  with free have "(f, r) \<in> set ?C" by (intro select_exclusive_keeps) simp_all
  with free have "(f, r) \<in> set (enforce_dependencies ds ?C)"
    by (intro enforce_dependencies_keeps) simp_all
  then show "is_active (resolve m fs gs ds cs) (field_id f)"
    by (force simp: is_active_iff)
next
  let ?K = "above_threshold m cs fs"
  let ?C = "select_exclusive gs ?K"
  assume below: "(\<exists>c\<in>set cs. fieldId c = field_id f)
          \<and> (\<forall>c\<in>set cs. fieldId c = field_id f \<longrightarrow> confidence c < m)"
  then have "\<not> (\<exists>c\<in>set cs. fieldId c = field_id f \<and> m \<le> confidence c)" by force
  then have nk: "\<not> active_in ?K f"
    using assms by (simp add: active_in_above_threshold)
  show blank: "\<not> is_active (resolve m fs gs ds cs) (field_id f)"
  proof
    assume "is_active (resolve m fs gs ds cs) (field_id f)"
    then obtain e where "e \<in> set (enforce_dependencies ds ?C)" "field_id (fst e) = field_id f"
      by (auto simp: is_active_iff)
    with final_entries(3) [of e ds gs m cs fs] have "active_in ?K f"
      by (auto simp: active_in_iff)
    with nk show False by simp
  qed
  from below nk have "blank_reason cs ?K ?C f = BelowConfidenceThreshold"
    by (simp add: blank_reason_def list_ex_iff)
  with assms blank show "reported (resolve m fs gs ds cs) f BelowConfidenceThreshold"
    by (rule reportedI)
qed


lemma unambiguousD:
  "unambiguous cs \<Longrightarrow> c \<in> set cs \<Longrightarrow> c' \<in> set cs \<Longrightarrow> fieldId c = fieldId c' \<Longrightarrow>
   confidence c = confidence c' \<Longrightarrow> candidate_value c = candidate_value c'"
  unfolding unambiguous_def list_all_iff by blast

lemma promote_same_set:
  assumes "set cs = set cs'" and "unambiguous cs"
  shows "promote m cs i = promote m cs' i"
proof (cases "promote m cs i")
  case None
  have "\<not> (\<exists>r. promote m cs' i = Some r)"
  proof
    assume "\<exists>r. promote m cs' i = Some r"
    then have "\<exists>c\<in>set cs'. fieldId c = i \<and> m \<le> confidence c"
      by (simp only: promote_Some_iff)
    then have "\<exists>c\<in>set cs. fieldId c = i \<and> m \<le> confidence c"
      by (simp only: assms(1))
    then have "\<exists>r. promote m cs i = Some r"
      by (simp only: promote_Some_iff)
    with None show False by simp
  qed
  then have "promote m cs' i = None" by (cases "promote m cs' i") simp_all
  with None show ?thesis by simp
next
  case (Some r)
  then have "\<exists>r. promote m cs i = Some r" by simp
  then have "\<exists>c\<in>set cs. fieldId c = i \<and> m \<le> confidence c"
    by (simp only: promote_Some_iff)
  then have "\<exists>c\<in>set cs'. fieldId c = i \<and> m \<le> confidence c"
    by (simp only: assms(1))
  then have "\<exists>r. promote m cs' i = Some r"
    by (simp only: promote_Some_iff)
  then obtain r' where r': "promote m cs' i = Some r'" ..
  from promote_confidence(1) [OF Some] obtain c where c: "c \<in> set cs" "fieldId c = i"
    "confidence c = resolved_confidence r" "candidate_value c = resolved_value r"
    by blast
  from promote_confidence(1) [OF r'] obtain c' where c': "c' \<in> set cs'" "fieldId c' = i"
    "confidence c' = resolved_confidence r'" "candidate_value c' = resolved_value r'"
    by blast
  from c'(1) have c'cs: "c' \<in> set cs" by (simp only: assms(1))
  from c(1) have ccs': "c \<in> set cs'" by (simp only: assms(1) [symmetric])
  have "confidence c' \<le> resolved_confidence r"
    using promote_confidence(2) [OF Some] c'cs c'(2) by blast
  moreover have "confidence c \<le> resolved_confidence r'"
    using promote_confidence(2) [OF r'] ccs' c(2) by blast
  ultimately have conf: "resolved_confidence r = resolved_confidence r'"
    using c(3) c'(3) by linarith
  have "fieldId c = fieldId c'" using c(2) c'(2) by simp
  moreover have "confidence c = confidence c'" using c(3) c'(3) conf by simp
  ultimately have "candidate_value c = candidate_value c'"
    using assms(2) c(1) c'cs by (intro unambiguousD)
  then have val: "resolved_value r = resolved_value r'" using c(4) c'(4) by simp
  have fid: "resolved_fieldId r = resolved_fieldId r'"
    using promote_fieldId [OF Some] promote_fieldId [OF r'] by simp
  have "r = r'" using fid val conf by (rule ResolvedField.equality) simp
  with Some r' show ?thesis by simp
qed

lemma enforce_dependencies_same_set:
  "set ds = set ds' \<Longrightarrow> enforce_dependencies ds act = enforce_dependencies ds' act"
proof (induction ds act rule: enforce_dependencies.induct)
  case (1 ds act)
  have el: "eligible ds xs = eligible ds' xs" for xs
    by (simp add: eligible_def list_all_iff fun_eq_iff "1.prems")
  show ?case
  proof (cases "length (filter (eligible ds act) act) < length act")
    case True
    have "enforce_dependencies ds act
        = enforce_dependencies ds (filter (eligible ds act) act)"
      using True by (subst enforce_dependencies.simps) simp
    also have "\<dots> = enforce_dependencies ds' (filter (eligible ds act) act)"
      using True "1.prems" by (rule "1.IH")
    also have "\<dots> = enforce_dependencies ds' act"
      using True by (subst (2) enforce_dependencies.simps) (simp add: el)
    finally show ?thesis .
  next
    case False
    have "enforce_dependencies ds act = act"
      using False by (subst enforce_dependencies.simps) simp
    moreover have "enforce_dependencies ds' act = act"
      using False by (subst enforce_dependencies.simps) (simp add: el)
    ultimately show ?thesis by simp
  qed
qed

text \<open>
  The resolution depends on the candidate list and on the dependency list only
  through their elements: two candidate lists with the same elements, in any order
  and with any repetition, give the same resolved fields and the same report,
  provided candidates of one field with equal confidence propose the same value; and
  so do two dependency lists with the same elements.
\<close>

lemma resolve_is_a_function_of_the_sets:
  assumes "set cs = set cs'" and "unambiguous cs" and "set ds = set ds'"
  shows "resolve m fs gs ds cs = resolve m fs gs ds' cs'"
proof -
  have k: "above_threshold m cs fs = above_threshold m cs' fs"
    using promote_same_set [OF assms(1,2)] by (simp add: above_threshold_def)
  have b: "blank_reason cs kept chosen f = blank_reason cs' kept chosen f" for kept chosen f
    using assms(1) by (simp add: blank_reason_def list_ex_iff)
  show ?thesis
    unfolding resolve_def Let_def k b enforce_dependencies_same_set [OF assms(3)] ..
qed


theorem threshold_is_inclusive_witness:
  "NewPatient \<in> set [NewPatient, ExistingPatient]
   \<and> ExistingPatient \<in> set [NewPatient, ExistingPatient]
   \<and> is_active (resolve 0.5 [NewPatient, ExistingPatient] [] []
          [evidence 1 ''true'' 0.5, evidence 2 ''true'' 0.49]) (field_id NewPatient)
   \<and> \<not> reported (resolve 0.5 [NewPatient, ExistingPatient] [] []
          [evidence 1 ''true'' 0.5, evidence 2 ''true'' 0.49]) NewPatient BelowConfidenceThreshold
   \<and> \<not> is_active (resolve 0.5 [NewPatient, ExistingPatient] [] []
          [evidence 1 ''true'' 0.5, evidence 2 ''true'' 0.49]) (field_id ExistingPatient)
   \<and> reported (resolve 0.5 [NewPatient, ExistingPatient] [] []
          [evidence 1 ''true'' 0.5, evidence 2 ''true'' 0.49]) ExistingPatient BelowConfidenceThreshold"
  using threshold_is_inclusive
    [where f = NewPatient and fs = "[NewPatient, ExistingPatient]" and m = "0.5"
       and cs = "[evidence 1 ''true'' 0.5, evidence 2 ''true'' 0.49]"
       and gs = "[]" and ds = "[]"]
    threshold_is_inclusive
    [where f = ExistingPatient and fs = "[NewPatient, ExistingPatient]" and m = "0.5"
       and cs = "[evidence 1 ''true'' 0.5, evidence 2 ''true'' 0.49]"
       and gs = "[]" and ds = "[]"]
  by (simp add: resolver_eval)


lemma select_exclusive_Nil: "select_exclusive gs [] = []"
  using select_exclusive_subset [of gs "[]"] by simp

lemma enforce_dependencies_Nil: "enforce_dependencies ds [] = []"
  by (subst enforce_dependencies.simps) simp

lemma concat_map_singleton: "concat (map (\<lambda>x. [h x]) xs) = map h xs"
  by (induction xs) simp_all

text \<open>
  With no candidate at all (no text was extracted from the referral package), nothing
  is resolved and every field of the form is reported with the reason no-evidence,
  whatever the groups and the dependencies.
\<close>

lemma resolve_without_candidates:
  "resolve m fs gs ds []
     = \<lparr>resolved = [],
        report = map (\<lambda>f. \<lparr>missing_fieldId = field_id f, missing_label = label f,
                             missing_reason = NoEvidence\<rparr>) fs\<rparr>"
proof -
  have k: "above_threshold m [] fs = []"
    by (simp add: above_threshold_def promote_def surviving_def)
  show ?thesis
    by (simp add: resolve_def k select_exclusive_Nil enforce_dependencies_Nil
        active_in_def blank_reason_def concat_map_singleton)
qed




end
